theory Spec2Isabelle
  imports Complex_Main "HOL-Library.Word"
begin

section \<open>The Art-Net/DMX gateway of artnet.py\<close>

text \<open>
  A shallow embedding of the class \<open>DMXGateway\<close> of \<open>artnet.py\<close>: the channel buffer,
  the Art-Net frame, the single and grouped channel writes and the fade loop.

  Python integers are \<open>int\<close>. Python floats are modelled by the rationals they denote and
  float arithmetic by exact arithmetic; every concrete input used below is a dyadic
  rational whose products are exactly representable. Bytes of a \<open>bytearray\<close> are
  \<open>8 word\<close>. An exception is a value: a call either returns a value together with the
  gateway as it has become, or raises an error, again together with the gateway as the
  call left it (Python does not undo the mutations made before a raise). The datagrams
  handed to the socket and the suspensions of the coroutine are recorded, oldest first,
  in the field \<open>effects\<close>; calls of the logging module leave no record, and the socket
  is taken to accept every datagram. The coroutine \<open>fade_channels\<close> is modelled as run
  alone, without another writer between its steps.
\<close>

subsection \<open>Python values\<close>

datatype error = IndexError | ValueError | ZeroDivisionError | StructError

type_synonym byte = "8 word"

datatype event = Sendto "byte list" string int | Sleep rat

record gateway =
  host :: string
  port :: int
  number_of_channels :: int
  default_level :: "int option"
  channels :: "int list"
  base_packet :: "byte list"
  effects :: "event list"

datatype 'a outcome = Raised error gateway | Returned 'a gateway

text \<open>Indexing a list of length \<open>n\<close>: a negative index counts from the end.\<close>

definition resolve :: "nat \<Rightarrow> int \<Rightarrow> nat option" where
  "resolve n k =
     (let j = (if k < 0 then int n + k else k)
      in if 0 \<le> j \<and> j < int n then Some (nat j) else None)"

definition getitem :: "'a list \<Rightarrow> int \<Rightarrow> 'a option" where
  "getitem xs k = (case resolve (length xs) k of None \<Rightarrow> None | Some j \<Rightarrow> Some (xs ! j))"

definition setitem :: "'a list \<Rightarrow> int \<Rightarrow> 'a \<Rightarrow> 'a list option" where
  "setitem xs k v = (case resolve (length xs) k of None \<Rightarrow> None | Some j \<Rightarrow> Some (xs[j := v]))"

text \<open>\<open>int(x)\<close> of a float truncates towards zero.\<close>

definition py_int :: "rat \<Rightarrow> int" where
  "py_int q = (if 0 \<le> q then \<lfloor>q\<rfloor> else \<lceil>q\<rceil>)"

text \<open>\<open>round(x)\<close> of a float is the nearest integer, a tie going to the even one.\<close>

definition py_round :: "rat \<Rightarrow> int" where
  "py_round q =
     (let f = \<lfloor>q\<rfloor>; d = q - of_int f
      in if d < 1 / 2 then f
         else if 1 / 2 < d then f + 1
         else if even f then f else f + 1)"

text \<open>\<open>struct.pack('>h', n)\<close>: a signed 16-bit integer, high byte first.\<close>

definition pack_h :: "int \<Rightarrow> error + byte list" where
  "pack_h n =
     (if - 32768 \<le> n \<and> n \<le> 32767
      then Inr [word_of_int (n div 256), word_of_int n]
      else Inl StructError)"

definition is_byte :: "int \<Rightarrow> bool" where
  "is_byte v \<longleftrightarrow> 0 \<le> v \<and> v < 256"

subsection \<open>Construction\<close>

text \<open>The header built at the end of \<open>__init__\<close> (lines 211 to 219).\<close>

definition make_base_packet :: "int \<Rightarrow> error + byte list" where
  "make_base_packet n =
     (case pack_h n of
        Inl e \<Rightarrow> Inl e
      | Inr len \<Rightarrow>
          Inr (map of_char ''Art-Net'' @ [0x00] @ [0x00, 0x50] @ [0x00, 0x0e]
               @ [0x00, 0x00] @ [0x00, 0x00] @ len))"

definition DMXGateway_init :: "string \<Rightarrow> int \<Rightarrow> int \<Rightarrow> int \<Rightarrow> error + gateway" where
  "DMXGateway_init h p level requested =
     (let n0 = (if requested \<le> 512 then requested else 512);
          n = (if requested mod 2 \<noteq> 0 then n0 + 1 else n0)
      in case make_base_packet n of
           Inl e \<Rightarrow> Inl e
         | Inr packet \<Rightarrow>
             Inr \<lparr>host = h, port = p, number_of_channels = n,
                  default_level = (if 0 \<le> level \<and> level \<le> 255 then Some level else None),
                  channels = replicate (nat n) level,
                  base_packet = packet, effects = []\<rparr>)"

subsection \<open>Sending a frame\<close>

text \<open>
  \<open>bytearray.extend\<close> raises ValueError on an element outside \<open>range(256)\<close>, before
  anything reaches the socket.
\<close>

definition send :: "gateway \<Rightarrow> unit outcome" where
  "send g =
     (if list_all is_byte (channels g)
      then Returned ()
             (g\<lparr>effects := effects g
                   @ [Sendto (base_packet g @ map word_of_int (channels g)) (host g) (port g)]\<rparr>)
      else Raised ValueError g)"

subsection \<open>Fading\<close>

datatype target = Scalar int | Values "int list"

definition value_arr_of :: "target \<Rightarrow> int list" where
  "value_arr_of v = (case v of Scalar s \<Rightarrow> [s] | Values vs \<Rightarrow> vs)"

definition number_of_frames_of :: "rat \<Rightarrow> rat \<Rightarrow> int" where
  "number_of_frames_of seconds fps = max (py_int (seconds * fps)) 1"

text \<open>Lines 247 and 249: the level of a channel at step \<open>i\<close>.\<close>

definition next_value_of :: "int \<Rightarrow> int \<Rightarrow> int \<Rightarrow> int \<Rightarrow> int" where
  "next_value_of original target_value number_of_frames i =
     (let increment = (of_int target_value - of_int original) / of_int number_of_frames
      in py_round (of_int original + increment * of_int i))"

text \<open>The loop over \<open>enumerate(channels)\<close>, from position \<open>x\<close> on (lines 245 to 253).\<close>

fun fade_inner ::
  "int list \<Rightarrow> int list \<Rightarrow> int \<Rightarrow> int \<Rightarrow> nat \<Rightarrow> int list \<Rightarrow> bool \<Rightarrow> gateway \<Rightarrow> bool outcome"
where
  "fade_inner original_values value_arr nframes i x [] values_changed g =
     Returned values_changed g"
| "fade_inner original_values value_arr nframes i x (channel # rest) values_changed g =
     (case getitem value_arr (min (int x) (int (length value_arr) - 1)) of
        None \<Rightarrow> Raised IndexError g
      | Some target_value \<Rightarrow>
     (case getitem original_values (channel - 1) of
        None \<Rightarrow> Raised IndexError g
      | Some original \<Rightarrow>
     (case getitem (channels g) (channel - 1) of
        None \<Rightarrow> Raised IndexError g
      | Some current \<Rightarrow>
          if current \<noteq> next_value_of original target_value nframes i
          then (case setitem (channels g) (channel - 1)
                       (next_value_of original target_value nframes i) of
                  None \<Rightarrow> Raised IndexError g
                | Some cs \<Rightarrow>
                    fade_inner original_values value_arr nframes i (Suc x) rest True
                      (g\<lparr>channels := cs\<rparr>))
          else fade_inner original_values value_arr nframes i (Suc x) rest values_changed g)))"

text \<open>One pass of the loop over the frames (lines 243 to 258).\<close>

definition fade_frame ::
  "int list \<Rightarrow> int list \<Rightarrow> int \<Rightarrow> rat \<Rightarrow> int list \<Rightarrow> int \<Rightarrow> gateway \<Rightarrow> unit outcome"
where
  "fade_frame original_values value_arr nframes fps chans i g =
     (case fade_inner original_values value_arr nframes i 0 chans False g of
        Raised e g1 \<Rightarrow> Raised e g1
      | Returned values_changed g1 \<Rightarrow>
     (case (if values_changed then send g1 else Returned () g1) of
        Raised e g2 \<Rightarrow> Raised e g2
      | Returned u g2 \<Rightarrow>
          if fps = 0 then Raised ZeroDivisionError g2
          else Returned () (g2\<lparr>effects := effects g2 @ [Sleep (1 / fps)]\<rparr>)))"

fun fade_frames ::
  "int list \<Rightarrow> int list \<Rightarrow> int \<Rightarrow> rat \<Rightarrow> int list \<Rightarrow> int list \<Rightarrow> gateway \<Rightarrow> unit outcome"
where
  "fade_frames original_values value_arr nframes fps chans [] g = Returned () g"
| "fade_frames original_values value_arr nframes fps chans (i # is) g =
     (case fade_frame original_values value_arr nframes fps chans i g of
        Raised e g1 \<Rightarrow> Raised e g1
      | Returned u g1 \<Rightarrow> fade_frames original_values value_arr nframes fps chans is g1)"

definition fade_channels ::
  "gateway \<Rightarrow> int list \<Rightarrow> target \<Rightarrow> rat \<Rightarrow> rat \<Rightarrow> unit outcome"
where
  "fade_channels g chans v seconds fps =
     fade_frames (channels g) (value_arr_of v) (number_of_frames_of seconds fps) fps chans
       [1 .. number_of_frames_of seconds fps] g"

text \<open>The first \<open>k\<close> passes of the same loop: the fade as it stands after step \<open>k\<close>.\<close>

definition fade_channels_upto ::
  "gateway \<Rightarrow> int list \<Rightarrow> target \<Rightarrow> rat \<Rightarrow> rat \<Rightarrow> int \<Rightarrow> unit outcome"
where
  "fade_channels_upto g chans v seconds fps k =
     fade_frames (channels g) (value_arr_of v) (number_of_frames_of seconds fps) fps chans
       [1 .. min k (number_of_frames_of seconds fps)] g"

subsection \<open>Writing and reading channels\<close>

definition set_channel :: "gateway \<Rightarrow> int \<Rightarrow> int \<Rightarrow> bool \<Rightarrow> bool outcome" where
  "set_channel g channel v send_immediately =
     (if 1 \<le> channel \<and> channel \<le> number_of_channels g \<and> 0 \<le> v \<and> v \<le> 255
      then (case setitem (channels g) (channel - 1) v of
              None \<Rightarrow> Raised IndexError g
            | Some cs \<Rightarrow>
                if send_immediately
                then (case send (g\<lparr>channels := cs\<rparr>) of
                        Raised e g1 \<Rightarrow> Raised e g1
                      | Returned u g1 \<Rightarrow> Returned True g1)
                else Returned True (g\<lparr>channels := cs\<rparr>))
      else Returned False g)"

definition get_channel_level :: "gateway \<Rightarrow> int \<Rightarrow> int outcome" where
  "get_channel_level g channel =
     (case getitem (channels g) (channel - 1) of
        None \<Rightarrow> Raised IndexError g
      | Some v \<Rightarrow> Returned v g)"

text \<open>The loop of \<open>set_channel_rgb\<close> over \<open>range(0, len(values))\<close>, from offset \<open>i\<close> on.\<close>

fun set_channel_rgb_loop :: "int \<Rightarrow> nat \<Rightarrow> int list \<Rightarrow> gateway \<Rightarrow> unit outcome" where
  "set_channel_rgb_loop channel i [] g = Returned () g"
| "set_channel_rgb_loop channel i (v # rest) g =
     (if channel + int i \<le> number_of_channels g \<and> 0 \<le> v \<and> v \<le> 255
      then (case setitem (channels g) (channel - 1 + int i) v of
              None \<Rightarrow> Raised IndexError g
            | Some cs \<Rightarrow> set_channel_rgb_loop channel (Suc i) rest (g\<lparr>channels := cs\<rparr>))
      else set_channel_rgb_loop channel (Suc i) rest g)"

definition set_channel_rgb :: "gateway \<Rightarrow> int \<Rightarrow> int list \<Rightarrow> bool \<Rightarrow> bool outcome" where
  "set_channel_rgb g channel vs send_immediately =
     (case set_channel_rgb_loop channel 0 vs g of
        Raised e g1 \<Rightarrow> Raised e g1
      | Returned u g1 \<Rightarrow>
          if send_immediately
          then (case send g1 of
                  Raised e g2 \<Rightarrow> Raised e g2
                | Returned u2 g2 \<Rightarrow> Returned True g2)
          else Returned True g1)"

subsection \<open>Observing a fade\<close>

text \<open>The target of the channel at position \<open>x\<close> of the list (line 246).\<close>

definition target_at :: "int list \<Rightarrow> nat \<Rightarrow> int" where
  "target_at value_arr x = value_arr ! min x (length value_arr - 1)"

text \<open>
  Whether the loop over the channels, started at position \<open>x\<close> in step \<open>i\<close>, finds on
  reaching the channel \<open>y\<close> places further a buffered level that is not its next value:
  the test of line 251 at that place.
\<close>

definition level_differs ::
  "int list \<Rightarrow> int list \<Rightarrow> int \<Rightarrow> int \<Rightarrow> nat \<Rightarrow> int list \<Rightarrow> gateway \<Rightarrow> nat \<Rightarrow> bool"
where
  "level_differs original_values value_arr nframes i x chans g y =
     (case fade_inner original_values value_arr nframes i x (take y chans) False g of
        Raised e g1 \<Rightarrow> False
      | Returned b g1 \<Rightarrow>
          (case getitem value_arr (min (int (x + y)) (int (length value_arr) - 1)) of
             None \<Rightarrow> False
           | Some target_value \<Rightarrow>
          (case getitem original_values (chans ! y - 1) of
             None \<Rightarrow> False
           | Some original \<Rightarrow>
          (case getitem (channels g1) (chans ! y - 1) of
             None \<Rightarrow> False
           | Some current \<Rightarrow> current \<noteq> next_value_of original target_value nframes i))))"

text \<open>The level of a channel after the first \<open>k\<close> steps of a fade.\<close>

definition level_after ::
  "gateway \<Rightarrow> int list \<Rightarrow> target \<Rightarrow> rat \<Rightarrow> rat \<Rightarrow> int \<Rightarrow> int \<Rightarrow> int option"
where
  "level_after g chans v seconds fps c k =
     (case fade_channels_upto g chans v seconds fps k of
        Raised e g1 \<Rightarrow> None
      | Returned u g1 \<Rightarrow>
          (case get_channel_level g1 c of
             Raised e g2 \<Rightarrow> None
           | Returned level g2 \<Rightarrow> Some level))"

text \<open>The number of suspensions among the effects: a fade suspends once in every step.\<close>

fun is_sleep :: "event \<Rightarrow> bool" where
  "is_sleep (Sleep d) = True"
| "is_sleep (Sendto frame h p) = False"

definition sleeps :: "gateway \<Rightarrow> nat" where
  "sleeps g = length (filter is_sleep (effects g))"


text \<open>
  How a step leaves the buffer: a slot that a listed channel resolves to holds the next
  value of such a channel at step \<open>i\<close>, and every other slot keeps its level.
\<close>

definition step_result ::
  "int list \<Rightarrow> int list \<Rightarrow> int \<Rightarrow> int \<Rightarrow> int list \<Rightarrow> int list \<Rightarrow> int list \<Rightarrow> bool"
where
  "step_result original value_arr n i chans old cs \<longleftrightarrow>
     length cs = length old \<and>
     (\<forall>s<length cs.
        if \<exists>y<length chans. resolve (length cs) (chans ! y - 1) = Some s
        then \<exists>y<length chans. resolve (length cs) (chans ! y - 1) = Some s
               \<and> cs ! s = next_value_of (original ! s) (target_at value_arr y) n i
        else cs ! s = old ! s)"

subsection \<open>The invariant of the buffer and a gateway to run on\<close>

text \<open>
  What \<open>__init__\<close> establishes for a request of at least zero channels and a default
  level that is a byte: the buffer has as many slots as the channel count says, the header
  was packed from that count, and every level is a byte.
\<close>

definition valid_gateway :: "gateway \<Rightarrow> bool" where
  "valid_gateway g \<longleftrightarrow>
     0 \<le> number_of_channels g \<and>
     length (channels g) = nat (number_of_channels g) \<and>
     make_base_packet (number_of_channels g) = Inr (base_packet g) \<and>
     list_all is_byte (channels g)"

text \<open>The gateway \<open>DMXGateway('dmx', 6454, 0, 4)\<close>.\<close>

definition gateway4 :: gateway where
  "gateway4 =
     \<lparr>host = ''dmx'', port = 6454, number_of_channels = 4, default_level = Some 0,
      channels = [0, 0, 0, 0],
      base_packet = [0x41, 0x72, 0x74, 0x2d, 0x4e, 0x65, 0x74, 0, 0, 0x50, 0, 0x0e,
                     0, 0, 0, 0, 0, 4],
      effects = []\<rparr>"

section \<open>Properties\<close>

subsection \<open>Indexing and bytes\<close>

lemma resolve_in_range: "0 \<le> k \<Longrightarrow> k < int n \<Longrightarrow> resolve n k = Some (nat k)"
  by (simp add: resolve_def)

lemma setitem_in_range:
  "0 \<le> k \<Longrightarrow> k < int (length xs) \<Longrightarrow> setitem xs k v = Some (xs[nat k := v])"
  by (simp add: setitem_def resolve_in_range)

lemma getitem_in_range:
  "0 \<le> k \<Longrightarrow> k < int (length xs) \<Longrightarrow> getitem xs k = Some (xs ! nat k)"
  by (simp add: getitem_def resolve_in_range)

lemma list_all_update: "list_all P xs \<Longrightarrow> P v \<Longrightarrow> list_all P (xs[j := v])"
  by (auto simp: list_all_iff dest: set_update_subset_insert [THEN subsetD])

lemma uint_byte: "is_byte v \<Longrightarrow> uint (word_of_int v :: byte) = v"
  by (simp add: is_byte_def uint_word_of_int_eq take_bit_int_eq_self)

lemma map_uint_bytes:
  "list_all is_byte vs \<Longrightarrow> map uint (map word_of_int vs :: byte list) = vs"
  by (induction vs) (simp_all add: uint_byte)

subsection \<open>Construction\<close>

lemma gateway4_init: "DMXGateway_init ''dmx'' 6454 0 4 = Inr gateway4"
  by (simp add: DMXGateway_init_def make_base_packet_def pack_h_def gateway4_def numeral_eq_Suc)

lemma valid_gateway4: "valid_gateway gateway4"
  by (simp add: valid_gateway_def gateway4_def make_base_packet_def pack_h_def is_byte_def)

lemma init_valid:
  assumes "0 \<le> requested" and "is_byte level"
  shows "\<exists>g. DMXGateway_init h p level requested = Inr g \<and> valid_gateway g"
  using assms
  by (auto simp: DMXGateway_init_def valid_gateway_def make_base_packet_def pack_h_def Let_def
      list_all_iff split: sum.splits)

text \<open>The channel count and the buffer that \<open>__init__\<close> makes.\<close>

lemma init_count:
  assumes "- 32768 \<le> requested"
  shows "\<exists>g. DMXGateway_init h p level requested = Inr g
           \<and> number_of_channels g =
               (if requested mod 2 \<noteq> 0 then (if requested \<le> 512 then requested else 512) + 1
                else (if requested \<le> 512 then requested else 512))
           \<and> length (channels g) = nat (number_of_channels g)"
proof -
  let ?n = "(if requested mod 2 \<noteq> 0 then (if requested \<le> 512 then requested else 512) + 1
                else (if requested \<le> 512 then requested else 512))"
  have "- 32768 \<le> ?n \<and> ?n \<le> 32767"
    using assms by presburger
  then obtain len where "pack_h ?n = Inr len"
    unfolding pack_h_def by simp
  then have "make_base_packet ?n = Inr (map of_char ''Art-Net'' @ [0x00] @ [0x00, 0x50] @ [0x00, 0x0e]
               @ [0x00, 0x00] @ [0x00, 0x00] @ len)"
    unfolding make_base_packet_def by simp
  then show ?thesis
    unfolding DMXGateway_init_def Let_def by simp
qed

text \<open>
  A request within the universe is rounded up to the next even number; an even request
  beyond it is cut to 512.
\<close>

lemma init_count_within_universe:
  assumes "1 \<le> requested" and "requested \<le> 512 \<or> even requested"
  shows "\<exists>g. DMXGateway_init h p level requested = Inr g
           \<and> even (number_of_channels g) \<and> number_of_channels g \<le> 512
           \<and> (requested \<le> 512 \<longrightarrow>
                number_of_channels g = (if even requested then requested else requested + 1))
           \<and> length (channels g) = nat (number_of_channels g)"
proof -
  from assms(1) have "- 32768 \<le> requested" by simp
  from init_count [OF this] obtain g where
    g: "DMXGateway_init h p level requested = Inr g"
    and n: "number_of_channels g =
               (if requested mod 2 \<noteq> 0 then (if requested \<le> 512 then requested else 512) + 1
                else (if requested \<le> 512 then requested else 512))"
    and l: "length (channels g) = nat (number_of_channels g)"
    by blast
  from assms(2) have e: "requested \<le> 512 \<or> requested mod 2 = 0"
    by (simp add: even_iff_mod_2_eq_zero)
  have "number_of_channels g mod 2 = 0" and "number_of_channels g \<le> 512"
    and "requested \<le> 512 \<longrightarrow>
           number_of_channels g = (if requested mod 2 = 0 then requested else requested + 1)"
    unfolding n using e by presburger+
  then have "even (number_of_channels g) \<and> number_of_channels g \<le> 512
           \<and> (requested \<le> 512 \<longrightarrow>
                number_of_channels g = (if even requested then requested else requested + 1))"
    by (simp add: even_iff_mod_2_eq_zero)
  with g l show ?thesis by blast
qed

text \<open>
  C3. A request of 513 channels: the count is cut to 512 and then, the request being odd,
  raised to 513. The buffer has 513 slots, an odd number beyond the universe.
\<close>

theorem init_odd_request_above_512:
  "DMXGateway_init ''dmx'' 6454 0 513
     = Inr \<lparr>host = ''dmx'', port = 6454, number_of_channels = 513, default_level = Some 0,
            channels = replicate 513 0,
            base_packet = [0x41, 0x72, 0x74, 0x2d, 0x4e, 0x65, 0x74, 0, 0, 0x50, 0, 0x0e,
                           0, 0, 0, 0, 0x02, 0x01],
            effects = []\<rparr>
   \<and> odd (513 :: int) \<and> (512 :: int) < 513"
  by (simp add: DMXGateway_init_def make_base_packet_def pack_h_def)

lemma init_count_odd_above_512:
  assumes "512 < requested" and "odd requested"
  shows "\<exists>g. DMXGateway_init h p level requested = Inr g \<and> number_of_channels g = 513"
proof -
  from assms(1) have "- 32768 \<le> requested" by simp
  from init_count [OF this] obtain g where
    g: "DMXGateway_init h p level requested = Inr g"
    and n: "number_of_channels g =
               (if requested mod 2 \<noteq> 0 then (if requested \<le> 512 then requested else 512) + 1
                else (if requested \<le> 512 then requested else 512))"
    by blast
  from assms(2) have "requested mod 2 \<noteq> 0"
    by (simp add: even_iff_mod_2_eq_zero)
  with assms(1) n have "number_of_channels g = 513" by simp
  with g show ?thesis by blast
qed

subsection \<open>The frame\<close>

lemma base_packet_explicit:
  assumes "make_base_packet n = Inr packet"
  shows "packet = [0x41, 0x72, 0x74, 0x2d, 0x4e, 0x65, 0x74, 0, 0, 0x50, 0, 0x0e, 0, 0, 0, 0,
                   word_of_int (n div 256), word_of_int n]"
    and "n \<le> 32767"
  using assms by (auto simp: make_base_packet_def pack_h_def split: if_splits)

lemma big_endian_length:
  assumes "0 \<le> n" and "n \<le> 32767"
  shows "uint (word_of_int (n div 256) :: byte) * 256 + uint (word_of_int n :: byte) = n"
proof -
  have "n div 256 \<le> 32767 div 256"
    using assms(2) by (intro zdiv_mono1) simp_all
  moreover have "0 \<le> n div 256"
    using assms(1) by (simp add: pos_imp_zdiv_nonneg_iff)
  ultimately have "is_byte (n div 256)"
    by (simp add: is_byte_def)
  then have "uint (word_of_int (n div 256) :: byte) = n div 256"
    by (rule uint_byte)
  moreover have "uint (word_of_int n :: byte) = n mod 256"
    by (simp add: uint_word_of_int_eq take_bit_eq_mod)
  ultimately show ?thesis by simp
qed

text \<open>
  C5. On a valid gateway \<open>send\<close> hands the socket one frame of \<open>18 + N\<close> bytes: the
  signature \<open>Art-Net\<close> and a zero byte, the opcode bytes 0x00 0x50, the version bytes
  0x00 0x0e, four zero bytes, the channel count with its high byte first, and then the
  levels of the channels in order.
\<close>

theorem send_frame_layout:
  assumes "valid_gateway g"
  shows "\<exists>frame. send g = Returned () (g\<lparr>effects := effects g @ [Sendto frame (host g) (port g)]\<rparr>)
           \<and> int (length frame) = 18 + number_of_channels g
           \<and> take 8 frame = map of_char ''Art-Net'' @ [0x00]
           \<and> frame ! 8 = 0x00 \<and> frame ! 9 = 0x50
           \<and> frame ! 10 = 0x00 \<and> frame ! 11 = 0x0e
           \<and> frame ! 12 = 0x00 \<and> frame ! 13 = 0x00 \<and> frame ! 14 = 0x00 \<and> frame ! 15 = 0x00
           \<and> uint (frame ! 16) * 256 + uint (frame ! 17) = number_of_channels g
           \<and> map uint (drop 18 frame) = channels g"
proof -
  let ?frame = "base_packet g @ map word_of_int (channels g)"
  from assms have bp: "make_base_packet (number_of_channels g) = Inr (base_packet g)"
    and n0: "0 \<le> number_of_channels g"
    and len: "length (channels g) = nat (number_of_channels g)"
    and bytes: "list_all is_byte (channels g)"
    by (simp_all add: valid_gateway_def)
  note p = base_packet_explicit [OF bp]
  have s: "send g = Returned () (g\<lparr>effects := effects g @ [Sendto ?frame (host g) (port g)]\<rparr>)"
    using bytes by (simp add: send_def)
  have l: "int (length ?frame) = 18 + number_of_channels g"
    using len n0 by (subst p(1)) simp
  have h: "take 8 ?frame = map of_char ''Art-Net'' @ [0x00]"
    by (subst p(1)) simp
  have b: "?frame ! 8 = 0x00" "?frame ! 9 = 0x50" "?frame ! 10 = 0x00" "?frame ! 11 = 0x0e"
     "?frame ! 12 = 0x00" "?frame ! 13 = 0x00" "?frame ! 14 = 0x00" "?frame ! 15 = 0x00"
    by (subst p(1), simp)+
  have n: "uint (?frame ! 16) * 256 + uint (?frame ! 17) = number_of_channels g"
    using big_endian_length [OF n0 p(2)] by (subst p(1), subst p(1)) simp
  have d: "map uint (drop 18 ?frame) = channels g"
    using map_uint_bytes [OF bytes] by (subst p(1)) simp
  from s l h b n d show ?thesis by blast
qed

theorem send_frame_layout_witness:
  "valid_gateway gateway4
   \<and> (\<exists>frame. send gateway4
                = Returned () (gateway4\<lparr>effects := effects gateway4 @ [Sendto frame ''dmx'' 6454]\<rparr>)
        \<and> length frame = 22 \<and> frame ! 9 = 0x50 \<and> map uint (drop 18 frame) = [0, 0, 0, 0])"
proof -
  have v: "valid_gateway gateway4"
    by (simp add: valid_gateway_def gateway4_def make_base_packet_def pack_h_def is_byte_def)
  from send_frame_layout [OF v] obtain frame where
    s: "send gateway4 = Returned ()
          (gateway4\<lparr>effects := effects gateway4 @ [Sendto frame (host gateway4) (port gateway4)]\<rparr>)"
    and l: "int (length frame) = 18 + number_of_channels gateway4"
    and o: "frame ! 9 = 0x50"
    and d: "map uint (drop 18 frame) = channels gateway4"
    by blast
  have hp: "host gateway4 = ''dmx''" "port gateway4 = 6454"
    by (simp_all add: gateway4_def)
  have "length frame = 22"
    using l by (simp add: gateway4_def)
  moreover have "map uint (drop 18 frame) = [0, 0, 0, 0]"
    using d by (simp add: gateway4_def)
  ultimately have "\<exists>frame. send gateway4
                = Returned () (gateway4\<lparr>effects := effects gateway4 @ [Sendto frame ''dmx'' 6454]\<rparr>)
        \<and> length frame = 22 \<and> frame ! 9 = 0x50 \<and> map uint (drop 18 frame) = [0, 0, 0, 0]"
    using s o unfolding hp by (intro exI [where x = frame]) simp
  with v show ?thesis ..
qed

subsection \<open>Writing one channel\<close>

text \<open>
  C2. On a buffer of \<open>N\<close> slots (all of them bytes when the frame is sent at once)
  \<open>set_channel\<close> returns True exactly when \<open>1 \<le> channel \<le> N\<close> and
  \<open>0 \<le> value \<le> 255\<close>, and then slot \<open>channel\<close> holds the value and no other slot has
  changed; otherwise it returns False and the buffer is as it was.
\<close>

theorem set_channel_iff:
  assumes "length (channels g) = nat (number_of_channels g)"
    and "send_immediately \<Longrightarrow> list_all is_byte (channels g)"
  shows "\<exists>g'. set_channel g c v send_immediately
               = Returned (1 \<le> c \<and> c \<le> number_of_channels g \<and> 0 \<le> v \<and> v \<le> 255) g'
             \<and> channels g' =
                 (if 1 \<le> c \<and> c \<le> number_of_channels g \<and> 0 \<le> v \<and> v \<le> 255
                  then (channels g)[nat (c - 1) := v] else channels g)"
proof (cases "1 \<le> c \<and> c \<le> number_of_channels g \<and> 0 \<le> v \<and> v \<le> 255")
  case False
  then show ?thesis by (auto simp: set_channel_def)
next
  case True
  then have idx: "setitem (channels g) (c - 1) v = Some ((channels g)[nat (c - 1) := v])"
    using assms(1) by (intro setitem_in_range) auto
  show ?thesis
  proof (cases send_immediately)
    case False
    with True idx show ?thesis by (simp add: set_channel_def)
  next
    case si: True
    from True have "is_byte v" by (simp add: is_byte_def)
    with assms(2) si have "list_all is_byte ((channels g)[nat (c - 1) := v])"
      by (simp add: list_all_update)
    with True idx si show ?thesis by (simp add: set_channel_def send_def)
  qed
qed

theorem set_channel_iff_witness:
  "length (channels gateway4) = nat (number_of_channels gateway4)
   \<and> list_all is_byte (channels gateway4)
   \<and> (\<exists>g'. set_channel gateway4 2 77 True = Returned True g' \<and> channels g' = [0, 77, 0, 0])
   \<and> (\<exists>g'. set_channel gateway4 5 77 True = Returned False g' \<and> channels g' = [0, 0, 0, 0])"
proof -
  have l: "length (channels gateway4) = nat (number_of_channels gateway4)"
    and b: "list_all is_byte (channels gateway4)"
    by (simp_all add: gateway4_def is_byte_def)
  have n: "number_of_channels gateway4 = 4" and c: "channels gateway4 = [0, 0, 0, 0]"
    by (simp_all add: gateway4_def)
  from set_channel_iff [where g = gateway4 and send_immediately = True and c = 2 and v = 77]
       set_channel_iff [where g = gateway4 and send_immediately = True and c = 5 and v = 77]
       l b
  show ?thesis unfolding n c by simp
qed

subsection \<open>Writing a group of channels\<close>


lemma rgb_loop_skips:
  assumes "\<forall>j<length vs. \<not> (c + int (i + j) \<le> number_of_channels g \<and> 0 \<le> vs ! j \<and> vs ! j \<le> 255)"
  shows "set_channel_rgb_loop c i vs g = Returned () g"
  using assms
proof (induction vs arbitrary: i)
  case Nil
  show ?case by simp
next
  case (Cons v rest)
  from Cons.prems have here: "\<not> (c + int i \<le> number_of_channels g \<and> 0 \<le> v \<and> v \<le> 255)"
    by (auto dest: spec [where x = 0])
  have "\<forall>j<length rest. \<not> (c + int (Suc i + j) \<le> number_of_channels g \<and> 0 \<le> rest ! j \<and> rest ! j \<le> 255)"
  proof (intro allI impI)
    fix j assume "j < length rest"
    then have "Suc j < length (v # rest)" by simp
    with Cons.prems have "\<not> (c + int (i + Suc j) \<le> number_of_channels g \<and> 0 \<le> (v # rest) ! Suc j \<and> (v # rest) ! Suc j \<le> 255)"
      by blast
    then show "\<not> (c + int (Suc i + j) \<le> number_of_channels g \<and> 0 \<le> rest ! j \<and> rest ! j \<le> 255)"
      by simp
  qed
  from Cons.IH [OF this] here show ?case by auto
qed

lemma rgb_loop_effect:
  assumes "1 \<le> c" and "length (channels g) = nat (number_of_channels g)"
  shows "\<exists>cs. set_channel_rgb_loop c i vs g = Returned () (g\<lparr>channels := cs\<rparr>)
           \<and> length cs = length (channels g)
           \<and> (list_all is_byte (channels g) \<longrightarrow> list_all is_byte cs)
           \<and> (\<forall>j<length vs. c + int (i + j) \<le> number_of_channels g \<and> 0 \<le> vs ! j \<and> vs ! j \<le> 255
                 \<longrightarrow> cs ! nat (c - 1 + int (i + j)) = vs ! j)
           \<and> (\<forall>s<length cs. (\<forall>j<length vs. int s = c - 1 + int (i + j)
                                  \<longrightarrow> \<not> (0 \<le> vs ! j \<and> vs ! j \<le> 255))
                 \<longrightarrow> cs ! s = channels g ! s)"
  using assms
proof (induction vs arbitrary: i g)
  case Nil
  show ?case by (intro exI [where x = "channels g"]) simp
next
  case (Cons v rest)
  let ?ok = "c + int i \<le> number_of_channels g \<and> 0 \<le> v \<and> v \<le> 255"
  let ?k = "nat (c - 1 + int i)"
  define g1 where "g1 = (if ?ok then g\<lparr>channels := (channels g)[?k := v]\<rparr> else g)"
  have step: "set_channel_rgb_loop c i (v # rest) g = set_channel_rgb_loop c (Suc i) rest g1"
  proof (cases ?ok)
    case True
    with Cons.prems have "setitem (channels g) (c - 1 + int i) v = Some ((channels g)[?k := v])"
      by (intro setitem_in_range) auto
    with True show ?thesis by (simp add: g1_def)
  next
    case False
    then show ?thesis by (auto simp: g1_def)
  qed
  have n1: "number_of_channels g1 = number_of_channels g"
    and l1: "length (channels g1) = length (channels g)"
    by (simp_all add: g1_def)
  have b1: "list_all is_byte (channels g) \<Longrightarrow> list_all is_byte (channels g1)"
    by (auto simp: g1_def is_byte_def intro: list_all_update)
  have up: "g1\<lparr>channels := cs\<rparr> = g\<lparr>channels := cs\<rparr>" for cs
    by (simp add: g1_def)
  from Cons.prems l1 n1 have "length (channels g1) = nat (number_of_channels g1)" by simp
  from Cons.IH [OF Cons.prems(1) this, of "Suc i"] obtain cs where
    run: "set_channel_rgb_loop c (Suc i) rest g1 = Returned () (g1\<lparr>channels := cs\<rparr>)"
    and len: "length cs = length (channels g1)"
    and byt: "list_all is_byte (channels g1) \<longrightarrow> list_all is_byte cs"
    and wr: "\<forall>j<length rest. c + int (Suc i + j) \<le> number_of_channels g1 \<and> 0 \<le> rest ! j \<and> rest ! j \<le> 255
                 \<longrightarrow> cs ! nat (c - 1 + int (Suc i + j)) = rest ! j"
    and keep: "\<forall>s<length cs. (\<forall>j<length rest. int s = c - 1 + int (Suc i + j)
                                  \<longrightarrow> \<not> (0 \<le> rest ! j \<and> rest ! j \<le> 255))
                 \<longrightarrow> cs ! s = channels g1 ! s"
    by blast
  have A: "cs ! nat (c - 1 + int (i + j)) = (v # rest) ! j"
    if j: "j < length (v # rest)"
      and ok: "c + int (i + j) \<le> number_of_channels g \<and> 0 \<le> (v # rest) ! j \<and> (v # rest) ! j \<le> 255"
    for j
  proof (cases j)
    case 0
    with ok have okv: ?ok by simp
    with Cons.prems have k: "?k < length cs" using len l1 by auto
    have "\<forall>j'<length rest. int ?k \<noteq> c - 1 + int (Suc i + j')"
      using Cons.prems(1) by auto
    with keep k have "cs ! ?k = channels g1 ! ?k" by blast
    also have "\<dots> = v" using okv k len l1 by (simp add: g1_def)
    finally show ?thesis using 0 by simp
  next
    case (Suc j')
    with j ok wr n1 show ?thesis by (auto simp: add.commute add.left_commute)
  qed
  have B: "cs ! s = channels g ! s"
    if s: "s < length cs"
      and no: "\<forall>j<length (v # rest). int s = c - 1 + int (i + j)
                                  \<longrightarrow> \<not> (0 \<le> (v # rest) ! j \<and> (v # rest) ! j \<le> 255)"
    for s
  proof -
    have "\<forall>j<length rest. int s = c - 1 + int (Suc i + j) \<longrightarrow> \<not> (0 \<le> rest ! j \<and> rest ! j \<le> 255)"
    proof (intro allI impI)
      fix j assume "j < length rest" and "int s = c - 1 + int (Suc i + j)"
      then have "Suc j < length (v # rest)" and "int s = c - 1 + int (i + Suc j)" by simp_all
      with no have "\<not> (0 \<le> (v # rest) ! Suc j \<and> (v # rest) ! Suc j \<le> 255)" by blast
      then show "\<not> (0 \<le> rest ! j \<and> rest ! j \<le> 255)" by simp
    qed
    with keep s have "cs ! s = channels g1 ! s" by blast
    also have "\<dots> = channels g ! s"
    proof (cases "?ok \<and> s = ?k")
      case True
      with Cons.prems(1) have "int s = c - 1 + int (i + 0)" by simp
      with no have "\<not> (0 \<le> v \<and> v \<le> 255)" by fastforce
      with True show ?thesis by simp
    next
      case False
      then show ?thesis by (auto simp: g1_def)
    qed
    finally show ?thesis .
  qed
  show ?case
  proof (intro exI [where x = cs] conjI)
    show "set_channel_rgb_loop c i (v # rest) g = Returned () (g\<lparr>channels := cs\<rparr>)"
      using step run up by simp
    show "length cs = length (channels g)" using len l1 by simp
    show "list_all is_byte (channels g) \<longrightarrow> list_all is_byte cs" using byt b1 by blast
    show "\<forall>j<length (v # rest). c + int (i + j) \<le> number_of_channels g \<and> 0 \<le> (v # rest) ! j \<and> (v # rest) ! j \<le> 255
                 \<longrightarrow> cs ! nat (c - 1 + int (i + j)) = (v # rest) ! j"
      using A by blast
    show "\<forall>s<length cs. (\<forall>j<length (v # rest). int s = c - 1 + int (i + j)
                                  \<longrightarrow> \<not> (0 \<le> (v # rest) ! j \<and> (v # rest) ! j \<le> 255))
                 \<longrightarrow> cs ! s = channels g ! s"
      using B by blast
  qed
qed


text \<open>
  C10. \<open>set_channel_rgb\<close> never returns False. On a valid gateway and with a start index
  of at least 1 it returns True whatever the values are; and when every value is out of
  range or lies past the end of the buffer it returns True with no channel changed.
\<close>

theorem set_channel_rgb_returns_True:
  "(\<forall>g'. set_channel_rgb g c vs send_immediately \<noteq> Returned False g')
   \<and> (valid_gateway g \<and> 1 \<le> c
        \<longrightarrow> (\<exists>g'. set_channel_rgb g c vs send_immediately = Returned True g'))
   \<and> ((send_immediately \<longrightarrow> list_all is_byte (channels g))
        \<and> (\<forall>j<length vs. \<not> (c + int j \<le> number_of_channels g \<and> 0 \<le> vs ! j \<and> vs ! j \<le> 255))
        \<longrightarrow> (\<exists>g'. set_channel_rgb g c vs send_immediately = Returned True g'
                  \<and> channels g' = channels g))"
proof (intro conjI allI impI)
  fix g'
  show "set_channel_rgb g c vs send_immediately \<noteq> Returned False g'"
    by (simp add: set_channel_rgb_def split: outcome.splits)
next
  assume "valid_gateway g \<and> 1 \<le> c"
  then have c: "1 \<le> c" and l: "length (channels g) = nat (number_of_channels g)"
    and b: "list_all is_byte (channels g)"
    by (simp_all add: valid_gateway_def)
  from rgb_loop_effect [OF c l, of 0 vs] b obtain cs where
    "set_channel_rgb_loop c 0 vs g = Returned () (g\<lparr>channels := cs\<rparr>)"
    and "list_all is_byte cs"
    by blast
  then show "\<exists>g'. set_channel_rgb g c vs send_immediately = Returned True g'"
    by (simp add: set_channel_rgb_def send_def)
next
  assume a: "(send_immediately \<longrightarrow> list_all is_byte (channels g))
        \<and> (\<forall>j<length vs. \<not> (c + int j \<le> number_of_channels g \<and> 0 \<le> vs ! j \<and> vs ! j \<le> 255))"
  then have "\<forall>j<length vs. \<not> (c + int (0 + j) \<le> number_of_channels g \<and> 0 \<le> vs ! j \<and> vs ! j \<le> 255)"
    by simp
  then have "set_channel_rgb_loop c 0 vs g = Returned () g"
    by (rule rgb_loop_skips)
  with a show "\<exists>g'. set_channel_rgb g c vs send_immediately = Returned True g'
                  \<and> channels g' = channels g"
    by (simp add: set_channel_rgb_def send_def)
qed

theorem set_channel_rgb_returns_True_witness:
  "valid_gateway gateway4 \<and> (1::int) \<le> 4
   \<and> (255 :: int) < 300 \<and> number_of_channels gateway4 < 4 + 1
   \<and> set_channel_rgb gateway4 4 [300, 7] False = Returned True gateway4"
proof -
  have v: "valid_gateway gateway4" by (rule valid_gateway4)
  have n: "\<forall>j<length [300, 7 :: int]. \<not> (4 + int j \<le> number_of_channels gateway4
          \<and> 0 \<le> [300, 7 :: int] ! j \<and> [300, 7 :: int] ! j \<le> 255)"
    by (simp add: gateway4_def less_Suc_eq)
  from set_channel_rgb_returns_True [of gateway4 4 "[300, 7]" False] v n
  have "\<exists>g'. set_channel_rgb gateway4 4 [300, 7] False = Returned True g'" by simp
  moreover have "set_channel_rgb gateway4 4 [300, 7] False = Returned True gateway4"
    by (simp add: set_channel_rgb_def gateway4_def)
  moreover have "number_of_channels gateway4 < 4 + 1"
    by (simp add: gateway4_def)
  ultimately show ?thesis using v by simp
qed

text \<open>
  With a start index of at least 1 each value in range that lies within the buffer is
  written to its slot, and every other slot keeps its level.
\<close>

lemma set_channel_rgb_from_one:
  assumes "1 \<le> c" and "length (channels g) = nat (number_of_channels g)"
    and "send_immediately \<Longrightarrow> list_all is_byte (channels g)"
  shows "\<exists>g'. set_channel_rgb g c vs send_immediately = Returned True g'
           \<and> length (channels g') = length (channels g)
           \<and> (\<forall>j<length vs. c + int j \<le> number_of_channels g \<and> 0 \<le> vs ! j \<and> vs ! j \<le> 255
                 \<longrightarrow> channels g' ! nat (c - 1 + int j) = vs ! j)
           \<and> (\<forall>s<length (channels g). (\<forall>j<length vs. int s = c - 1 + int j
                                  \<longrightarrow> \<not> (0 \<le> vs ! j \<and> vs ! j \<le> 255))
                 \<longrightarrow> channels g' ! s = channels g ! s)"
proof -
  from rgb_loop_effect [OF assms(1,2), of 0 vs] obtain cs where
    run: "set_channel_rgb_loop c 0 vs g = Returned () (g\<lparr>channels := cs\<rparr>)"
    and len: "length cs = length (channels g)"
    and byt: "list_all is_byte (channels g) \<longrightarrow> list_all is_byte cs"
    and wr: "\<forall>j<length vs. c + int (0 + j) \<le> number_of_channels g \<and> 0 \<le> vs ! j \<and> vs ! j \<le> 255
                 \<longrightarrow> cs ! nat (c - 1 + int (0 + j)) = vs ! j"
    and keep: "\<forall>s<length cs. (\<forall>j<length vs. int s = c - 1 + int (0 + j)
                                  \<longrightarrow> \<not> (0 \<le> vs ! j \<and> vs ! j \<le> 255))
                 \<longrightarrow> cs ! s = channels g ! s"
    by blast
  show ?thesis
  proof (cases send_immediately)
    case False
    with run have "set_channel_rgb g c vs send_immediately = Returned True (g\<lparr>channels := cs\<rparr>)"
      by (simp add: set_channel_rgb_def)
    with len wr keep show ?thesis by simp
  next
    case True
    with assms(3) byt have "list_all is_byte cs" by blast
    with run True have "set_channel_rgb g c vs send_immediately = Returned True
        (g\<lparr>channels := cs, effects := effects g @ [Sendto (base_packet g @ map word_of_int cs) (host g) (port g)]\<rparr>)"
      by (simp add: set_channel_rgb_def send_def)
    with len wr keep show ?thesis by simp
  qed
qed


subsection \<open>Rounding and interpolation\<close>

lemma py_round_of_int: "py_round (of_int z) = z"
  by (simp add: py_round_def)

lemma py_round_bounds: "\<lfloor>q\<rfloor> \<le> py_round q" "py_round q \<le> \<lfloor>q\<rfloor> + 1"
  by (simp_all add: py_round_def Let_def)

lemma py_round_mono:
  assumes "a \<le> b"
  shows "py_round a \<le> py_round b"
proof (cases "\<lfloor>a\<rfloor> = \<lfloor>b\<rfloor>")
  case True
  with assms have "a - of_int \<lfloor>a\<rfloor> \<le> b - of_int \<lfloor>a\<rfloor>" by simp
  with True show ?thesis
    by (auto simp: py_round_def Let_def)
next
  case False
  with assms have "\<lfloor>a\<rfloor> < \<lfloor>b\<rfloor>"
    using floor_mono [of a b] by simp
  then have "py_round a \<le> \<lfloor>b\<rfloor>"
    using py_round_bounds(2) [of a] by simp
  also have "\<dots> \<le> py_round b" by (rule py_round_bounds)
  finally show ?thesis .
qed

lemma next_value_of_last:
  assumes "1 \<le> n"
  shows "next_value_of orig t n n = t"
proof -
  from assms have "(of_int n :: rat) \<noteq> 0" by simp
  then have "of_int orig + (of_int t - of_int orig) / of_int n * of_int n = (of_int t :: rat)"
    by simp
  then show ?thesis
    by (simp add: next_value_of_def py_round_of_int)
qed

lemma next_value_of_mono:
  assumes "1 \<le> n" and "orig \<le> t" and "i \<le> j"
  shows "next_value_of orig t n i \<le> next_value_of orig t n j"
proof -
  let ?inc = "(of_int t - of_int orig) / of_int n :: rat"
  from assms(1,2) have "0 \<le> ?inc" by simp
  moreover from assms(3) have "(of_int i :: rat) \<le> of_int j" by simp
  ultimately have "?inc * of_int i \<le> ?inc * of_int j"
    by (rule mult_left_mono [rotated])
  then have "of_int orig + ?inc * of_int i \<le> of_int orig + ?inc * of_int j" by simp
  then show ?thesis
    unfolding next_value_of_def Let_def by (rule py_round_mono)
qed

lemma next_value_of_between:
  assumes "1 \<le> n" and "0 \<le> i" and "i \<le> n"
    and "lo \<le> orig" and "orig \<le> hi" and "lo \<le> t" and "t \<le> hi"
  shows "lo \<le> next_value_of orig t n i" and "next_value_of orig t n i \<le> hi"
proof -
  define l :: rat where "l = of_int i / of_int n"
  let ?v = "of_int orig + (of_int t - of_int orig) / of_int n * of_int i :: rat"
  from assms(1,2,3) have l0: "0 \<le> l" and l1: "0 \<le> 1 - l"
    by (simp_all add: l_def)
  have v: "?v = (1 - l) * of_int orig + l * of_int t"
    by (simp add: l_def algebra_simps diff_divide_distrib)
  have "0 \<le> (1 - l) * (of_int orig - of_int lo) + l * (of_int t - of_int lo)"
    using l0 l1 assms(4,6) by (intro add_nonneg_nonneg mult_nonneg_nonneg) simp_all
  also have "\<dots> = ?v - of_int lo"
    unfolding v by (simp add: algebra_simps)
  finally have "of_int lo \<le> ?v" by simp
  from py_round_mono [OF this] show "lo \<le> next_value_of orig t n i"
    by (simp add: next_value_of_def py_round_of_int)
  have "0 \<le> (1 - l) * (of_int hi - of_int orig) + l * (of_int hi - of_int t)"
    using l0 l1 assms(5,7) by (intro add_nonneg_nonneg mult_nonneg_nonneg) simp_all
  also have "\<dots> = of_int hi - ?v"
    unfolding v by (simp add: algebra_simps)
  finally have "?v \<le> of_int hi" by simp
  from py_round_mono [OF this] show "next_value_of orig t n i \<le> hi"
    by (simp add: next_value_of_def py_round_of_int)
qed

lemma next_value_of_byte:
  assumes "1 \<le> n" and "0 \<le> i" and "i \<le> n" and "is_byte orig" and "is_byte t"
  shows "is_byte (next_value_of orig t n i)"
  using next_value_of_between [OF assms(1,2,3), of 0 orig 255 t] assms(4,5)
  by (simp add: is_byte_def)

lemma number_of_frames_of_pos: "1 \<le> number_of_frames_of seconds fps"
  by (simp add: number_of_frames_of_def)

subsection \<open>Fading\<close>

lemma resolve_less: "resolve n k = Some j \<Longrightarrow> j < n"
  by (auto simp: resolve_def Let_def split: if_splits)

lemma target_lookup:
  assumes "value_arr \<noteq> []"
  shows "getitem value_arr (min (int x) (int (length value_arr) - 1)) = Some (target_at value_arr x)"
proof -
  let ?k = "min (int x) (int (length value_arr) - 1)"
  from assms have "0 < length value_arr" by simp
  then have "0 \<le> ?k" and "?k < int (length value_arr)" and "nat ?k = min x (length value_arr - 1)"
    by auto
  then show ?thesis
    by (simp add: getitem_in_range target_at_def)
qed

lemma target_at_byte:
  assumes "value_arr \<noteq> []" and "list_all is_byte value_arr"
  shows "is_byte (target_at value_arr x)"
proof -
  from assms(1) have "min x (length value_arr - 1) < length value_arr" by (cases value_arr) auto
  with assms(2) show ?thesis
    by (simp add: target_at_def list_all_length)
qed

text \<open>
  What the loop over the channels does to the buffer when every listed channel resolves to
  a slot: a slot that some listed channel resolves to holds the next value of one such
  channel, and every other slot keeps its level.
\<close>

lemma fade_inner_run:
  assumes "length original = length (channels g)" and "value_arr \<noteq> []"
    and "\<forall>c\<in>set chans. resolve (length (channels g)) (c - 1) \<noteq> None"
  shows "\<exists>b cs. fade_inner original value_arr n i x chans ch g = Returned b (g\<lparr>channels := cs\<rparr>)
           \<and> length cs = length (channels g)
           \<and> (\<forall>s<length cs.
                 if \<exists>y<length chans. resolve (length cs) (chans ! y - 1) = Some s
                 then \<exists>y<length chans. resolve (length cs) (chans ! y - 1) = Some s
                        \<and> cs ! s = next_value_of (original ! s) (target_at value_arr (x + y)) n i
                 else cs ! s = channels g ! s)"
  using assms
proof (induction chans arbitrary: x ch g)
  case Nil
  show ?case
    by (intro exI [where x = ch] exI [where x = "channels g"]) simp
next
  case (Cons c rest)
  let ?len = "length (channels g)"
  from Cons.prems(3) obtain k where k: "resolve ?len (c - 1) = Some k"
    by auto
  then have kl: "k < ?len" by (rule resolve_less)
  define nv where "nv = next_value_of (original ! k) (target_at value_arr x) n i"
  define g1 where "g1 = g\<lparr>channels := (channels g)[k := nv]\<rparr>"
  define ch1 where "ch1 = (if channels g ! k \<noteq> nv then True else ch)"
  have same: "g1 = g" if "channels g ! k = nv"
  proof -
    from that have "(channels g)[k := nv] = channels g"
      using list_update_id [of "channels g" k] by simp
    then show ?thesis by (simp add: g1_def)
  qed
  have step: "fade_inner original value_arr n i x (c # rest) ch g
                = fade_inner original value_arr n i (Suc x) rest ch1 g1"
  proof -
    note t = target_lookup [OF Cons.prems(2), of x]
    have o: "getitem original (c - 1) = Some (original ! k)"
      using k Cons.prems(1) by (simp add: getitem_def)
    have cu: "getitem (channels g) (c - 1) = Some (channels g ! k)"
      using k by (simp add: getitem_def)
    have se: "setitem (channels g) (c - 1) nv = Some ((channels g)[k := nv])"
      using k by (simp add: setitem_def)
    show ?thesis
    proof (cases "channels g ! k = nv")
      case True
      with same have "g1 = g" and "ch1 = ch" by (simp_all add: ch1_def)
      with True show ?thesis by (simp add: t o cu nv_def)
    next
      case False
      then have "ch1 = True" by (simp add: ch1_def)
      with False show ?thesis
        using se by (simp add: t o cu nv_def [symmetric] g1_def)
    qed
  qed
  have l1: "length (channels g1) = ?len" by (simp add: g1_def)
  have up: "g1\<lparr>channels := cs\<rparr> = g\<lparr>channels := cs\<rparr>" for cs
    by (simp add: g1_def)
  from Cons.prems l1 have p1: "length original = length (channels g1)"
    and p3: "\<forall>c\<in>set rest. resolve (length (channels g1)) (c - 1) \<noteq> None"
    by simp_all
  from Cons.IH [OF p1 Cons.prems(2) p3, of "Suc x" ch1] obtain b cs where
    run: "fade_inner original value_arr n i (Suc x) rest ch1 g1 = Returned b (g1\<lparr>channels := cs\<rparr>)"
    and len: "length cs = ?len"
    and pt: "\<forall>s<length cs.
                 if \<exists>y<length rest. resolve (length cs) (rest ! y - 1) = Some s
                 then \<exists>y<length rest. resolve (length cs) (rest ! y - 1) = Some s
                        \<and> cs ! s = next_value_of (original ! s) (target_at value_arr (Suc x + y)) n i
                 else cs ! s = channels g1 ! s"
    unfolding l1 by blast
  have pt': "if \<exists>y<length (c # rest). resolve (length cs) ((c # rest) ! y - 1) = Some s
                 then \<exists>y<length (c # rest). resolve (length cs) ((c # rest) ! y - 1) = Some s
                        \<and> cs ! s = next_value_of (original ! s) (target_at value_arr (x + y)) n i
                 else cs ! s = channels g ! s"
    if s: "s < length cs" for s
  proof (cases "\<exists>y<length rest. resolve (length cs) (rest ! y - 1) = Some s")
    case True
    with pt s obtain y where y: "y < length rest" "resolve (length cs) (rest ! y - 1) = Some s"
      "cs ! s = next_value_of (original ! s) (target_at value_arr (Suc x + y)) n i"
      by (auto split: if_splits)
    then have "Suc y < length (c # rest)" "resolve (length cs) ((c # rest) ! Suc y - 1) = Some s"
      "cs ! s = next_value_of (original ! s) (target_at value_arr (x + Suc y)) n i"
      by simp_all
    then have "\<exists>y<length (c # rest). resolve (length cs) ((c # rest) ! y - 1) = Some s
                        \<and> cs ! s = next_value_of (original ! s) (target_at value_arr (x + y)) n i"
      by blast
    then show ?thesis by auto
  next
    case False
    with pt s have keep: "cs ! s = channels g1 ! s" by (auto split: if_splits)
    show ?thesis
    proof (cases "s = k")
      case True
      with keep kl have "cs ! s = nv" by (simp add: g1_def)
      with True k len have "0 < length (c # rest)" "resolve (length cs) ((c # rest) ! 0 - 1) = Some s"
        "cs ! s = next_value_of (original ! s) (target_at value_arr (x + 0)) n i"
        by (simp_all add: nv_def)
      then have "\<exists>y<length (c # rest). resolve (length cs) ((c # rest) ! y - 1) = Some s
                        \<and> cs ! s = next_value_of (original ! s) (target_at value_arr (x + y)) n i"
        by blast
      then show ?thesis by auto
    next
      case sk: False
      with keep have "cs ! s = channels g ! s" by (simp add: g1_def)
      moreover have "\<not> (\<exists>y<length (c # rest). resolve (length cs) ((c # rest) ! y - 1) = Some s)"
      proof
        assume "\<exists>y<length (c # rest). resolve (length cs) ((c # rest) ! y - 1) = Some s"
        then obtain y where y: "y < length (c # rest)" "resolve (length cs) ((c # rest) ! y - 1) = Some s"
          by blast
        show False
        proof (cases y)
          case 0
          with y k len sk show False by simp
        next
          case (Suc y')
          with y False show False by auto
        qed
      qed
      ultimately show ?thesis by (simp only: if_False)
    qed
  qed
  show ?case
  proof (intro exI [where x = b] exI [where x = cs] conjI)
    show "fade_inner original value_arr n i x (c # rest) ch g = Returned b (g\<lparr>channels := cs\<rparr>)"
      using step run up by simp
    show "length cs = length (channels g)" by (rule len)
    show "\<forall>s<length cs.
                 if \<exists>y<length (c # rest). resolve (length cs) ((c # rest) ! y - 1) = Some s
                 then \<exists>y<length (c # rest). resolve (length cs) ((c # rest) ! y - 1) = Some s
                        \<and> cs ! s = next_value_of (original ! s) (target_at value_arr (x + y)) n i
                 else cs ! s = channels g ! s"
      using pt' by blast
  qed
qed

text \<open>The loop over the channels touches nothing but the buffer.\<close>

lemma fade_inner_frame:
  assumes "fade_inner original value_arr n i x chans ch g = Returned b g'"
  shows "effects g' = effects g \<and> host g' = host g \<and> port g' = port g
         \<and> base_packet g' = base_packet g \<and> number_of_channels g' = number_of_channels g"
  using assms
proof (induction chans arbitrary: x ch g)
  case Nil
  then show ?case by simp
next
  case (Cons c rest)
  from Cons.prems obtain ch1 g1 where
    "fade_inner original value_arr n i (Suc x) rest ch1 g1 = Returned b g'"
    and "effects g1 = effects g \<and> host g1 = host g \<and> port g1 = port g
         \<and> base_packet g1 = base_packet g \<and> number_of_channels g1 = number_of_channels g"
    by (fastforce split: option.splits if_splits)
  with Cons.IH show ?case by metis
qed

lemma fade_inner_True:
  assumes "fade_inner original value_arr n i x chans True g = Returned b g'"
  shows "b"
  using assms
proof (induction chans arbitrary: x g)
  case Nil
  then show ?case by simp
next
  case (Cons c rest)
  from Cons.prems obtain g1 where
    "fade_inner original value_arr n i (Suc x) rest True g1 = Returned b g'"
    by (fastforce split: option.splits if_splits)
  with Cons.IH show ?case by blast
qed

lemma level_differs_Cons_0:
  assumes "getitem value_arr (min (int x) (int (length value_arr) - 1)) = Some t"
    and "getitem original (c - 1) = Some orig"
    and "getitem (channels g) (c - 1) = Some cur"
  shows "level_differs original value_arr n i x (c # rest) g 0 \<longleftrightarrow> cur \<noteq> next_value_of orig t n i"
  using assms by (simp add: level_differs_def)

lemma level_differs_Cons_Suc:
  assumes "getitem value_arr (min (int x) (int (length value_arr) - 1)) = Some t"
    and "getitem original (c - 1) = Some orig"
    and "getitem (channels g) (c - 1) = Some cur"
    and "cur = next_value_of orig t n i"
  shows "level_differs original value_arr n i x (c # rest) g (Suc y)
         \<longleftrightarrow> level_differs original value_arr n i (Suc x) rest g y"
  using assms by (auto simp: level_differs_def split: outcome.splits option.splits)

lemma ex_less_Suc: "(\<exists>y<Suc m. P y) \<longleftrightarrow> P 0 \<or> (\<exists>y<m. P (Suc y))"
  by (metis less_Suc_eq_0_disj)

text \<open>The flag the loop returns: set on entry, or set by the test at some place.\<close>

lemma fade_inner_flag:
  assumes "fade_inner original value_arr n i x chans ch g = Returned b g'"
  shows "b \<longleftrightarrow> ch \<or> (\<exists>y<length chans. level_differs original value_arr n i x chans g y)"
  using assms
proof (induction chans arbitrary: x ch g)
  case Nil
  then show ?case by simp
next
  case (Cons c rest)
  from Cons.prems obtain t orig cur where
    t: "getitem value_arr (min (int x) (int (length value_arr) - 1)) = Some t"
    and o: "getitem original (c - 1) = Some orig"
    and cu: "getitem (channels g) (c - 1) = Some cur"
    by (auto split: option.splits)
  show ?case
  proof (cases "cur = next_value_of orig t n i")
    case True
    with Cons.prems t o cu
    have "fade_inner original value_arr n i (Suc x) rest ch g = Returned b g'"
      by simp
    from Cons.IH [OF this]
    have "b \<longleftrightarrow> ch \<or> (\<exists>y<length rest. level_differs original value_arr n i (Suc x) rest g y)" .
    also have "\<dots> \<longleftrightarrow> ch \<or> (\<exists>y<length (c # rest). level_differs original value_arr n i x (c # rest) g y)"
      using level_differs_Cons_0 [OF t o cu, where n = n and i = i and rest = rest]
        level_differs_Cons_Suc [OF t o cu True, where rest = rest]
        True
      by (simp add: ex_less_Suc)
    finally show ?thesis .
  next
    case False
    with Cons.prems t o cu obtain g1 where
      "fade_inner original value_arr n i (Suc x) rest True g1 = Returned b g'"
      by (auto split: option.splits)
    then have b by (rule fade_inner_True)
    moreover have "level_differs original value_arr n i x (c # rest) g 0"
      using level_differs_Cons_0 [OF t o cu, where n = n and i = i and rest = rest] False by simp
    ultimately show ?thesis by auto
  qed
qed

lemma send_Returned:
  assumes "send g = Returned u g'"
  shows "g' = g\<lparr>effects := effects g
                   @ [Sendto (base_packet g @ map word_of_int (channels g)) (host g) (port g)]\<rparr>"
  using assms by (simp add: send_def split: if_splits)

text \<open>
  C7. A step of a fade that returns has performed, after what was done before it, at most
  one send and then its one suspension; and it has sent exactly when, at some place of the
  channel list, the level found in the buffer was not the next value of the channel.
\<close>

theorem fade_frame_sends_once_iff_changed:
  assumes "fade_frame original value_arr n fps chans i g = Returned u g'"
  shows "effects g' =
           effects g
           @ (if \<exists>y<length chans. level_differs original value_arr n i 0 chans g y
              then [Sendto (base_packet g @ map word_of_int (channels g')) (host g) (port g)]
              else [])
           @ [Sleep (1 / fps)]"
proof -
  from assms obtain b g1 where
    inner: "fade_inner original value_arr n i 0 chans False g = Returned b g1"
    by (auto simp: fade_frame_def split: outcome.splits)
  from fade_inner_flag [OF inner]
  have b: "b \<longleftrightarrow> (\<exists>y<length chans. level_differs original value_arr n i 0 chans g y)"
    by simp
  note fr = fade_inner_frame [OF inner]
  show ?thesis
  proof (cases b)
    case True
    with assms inner obtain g2 where s: "send g1 = Returned () g2"
      and g': "fps \<noteq> 0" "g' = g2\<lparr>effects := effects g2 @ [Sleep (1 / fps)]\<rparr>"
      by (auto simp: fade_frame_def split: outcome.splits if_splits)
    from send_Returned [OF s] g' fr True b show ?thesis by simp
  next
    case False
    with assms inner have "fps \<noteq> 0" "g' = g1\<lparr>effects := effects g1 @ [Sleep (1 / fps)]\<rparr>"
      by (auto simp: fade_frame_def split: outcome.splits if_splits)
    with fr False b show ?thesis by simp
  qed
qed

theorem fade_frame_sends_once_iff_changed_witness:
  "fade_frame [0, 0, 0, 0] [7] 1 40 [1, 2] 1 gateway4
     = Returned () (gateway4\<lparr>channels := [7, 7, 0, 0],
         effects := [Sendto (base_packet gateway4 @ [7, 7, 0, 0]) ''dmx'' 6454, Sleep (1 / 40)]\<rparr>)
   \<and> (\<exists>y<length [1, 2 :: int]. level_differs [0, 0, 0, 0] [7] 1 1 0 [1, 2] gateway4 y)
   \<and> fade_frame [0, 0, 0, 0] [0] 1 40 [1, 2] 1 gateway4
     = Returned () (gateway4\<lparr>effects := [Sleep (1 / 40)]\<rparr>)
   \<and> \<not> (\<exists>y<length [1, 2 :: int]. level_differs [0, 0, 0, 0] [0] 1 1 0 [1, 2] gateway4 y)"
proof -
  let ?g1 = "gateway4\<lparr>channels := [7, 7, 0, 0],
         effects := [Sendto (base_packet gateway4 @ [7, 7, 0, 0]) ''dmx'' 6454, Sleep (1 / 40)]\<rparr>"
  let ?g2 = "gateway4\<lparr>effects := [Sleep (1 / 40)]\<rparr>"
  have r1: "fade_frame [0, 0, 0, 0] [7] 1 40 [1, 2] 1 gateway4 = Returned () ?g1"
    by code_simp
  have r2: "fade_frame [0, 0, 0, 0] [0] 1 40 [1, 2] 1 gateway4 = Returned () ?g2"
    by code_simp
  have e: "effects gateway4 = []" by (simp add: gateway4_def)
  from fade_frame_sends_once_iff_changed [OF r1]
  have d1: "\<exists>y<length [1, 2 :: int]. level_differs [0, 0, 0, 0] [7] 1 1 0 [1, 2] gateway4 y"
    unfolding e by (auto split: if_splits)
  from fade_frame_sends_once_iff_changed [OF r2]
  have d2: "\<not> (\<exists>y<length [1, 2 :: int]. level_differs [0, 0, 0, 0] [0] 1 1 0 [1, 2] gateway4 y)"
    unfolding e by (auto split: if_splits)
  from r1 d1 r2 d2 show ?thesis by blast
qed

lemma fade_frame_sleeps:
  assumes "fade_frame original value_arr n fps chans i g = Returned u g'"
  shows "sleeps g' = Suc (sleeps g)"
proof -
  from assms obtain b g1 where
    inner: "fade_inner original value_arr n i 0 chans False g = Returned b g1"
    by (auto simp: fade_frame_def split: outcome.splits)
  note fr = fade_inner_frame [OF inner]
  show ?thesis
  proof (cases b)
    case True
    with assms inner obtain g2 where s: "send g1 = Returned () g2"
      and g': "g' = g2\<lparr>effects := effects g2 @ [Sleep (1 / fps)]\<rparr>"
      by (auto simp: fade_frame_def split: outcome.splits if_splits)
    from send_Returned [OF s] g' fr show ?thesis by (simp add: sleeps_def)
  next
    case False
    with assms inner have "g' = g1\<lparr>effects := effects g1 @ [Sleep (1 / fps)]\<rparr>"
      by (auto simp: fade_frame_def split: outcome.splits if_splits)
    with fr show ?thesis by (simp add: sleeps_def)
  qed
qed

lemma fade_frames_sleeps:
  assumes "fade_frames original value_arr n fps chans steps g = Returned u g'"
  shows "sleeps g' = sleeps g + length steps"
  using assms
proof (induction steps arbitrary: g)
  case Nil
  then show ?case by simp
next
  case (Cons i rest)
  from Cons.prems obtain g1 where
    one: "fade_frame original value_arr n fps chans i g = Returned () g1"
    and more: "fade_frames original value_arr n fps chans rest g1 = Returned u g'"
    by (auto split: outcome.splits)
  from fade_frame_sleeps [OF one] Cons.IH [OF more] show ?case by simp
qed




lemma fade_inner_step_result:
  assumes "length original = length (channels g)" and "value_arr \<noteq> []"
    and "\<forall>c\<in>set chans. resolve (length (channels g)) (c - 1) \<noteq> None"
  shows "\<exists>b cs. fade_inner original value_arr n i 0 chans False g = Returned b (g\<lparr>channels := cs\<rparr>)
           \<and> step_result original value_arr n i chans (channels g) cs"
  using fade_inner_run [OF assms, of n i 0 False, unfolded add_0]
  unfolding step_result_def by blast

lemma step_result_bytes:
  assumes "step_result original value_arr n i chans old cs"
    and "length original = length old" and "value_arr \<noteq> []"
    and "list_all is_byte original" and "list_all is_byte value_arr" and "list_all is_byte old"
    and "1 \<le> n" and "0 \<le> i" and "i \<le> n"
  shows "list_all is_byte cs"
  unfolding list_all_length
proof (intro allI impI)
  fix s assume s: "s < length cs"
  from assms(1) have len: "length cs = length old"
    by (simp add: step_result_def)
  show "is_byte (cs ! s)"
  proof (cases "\<exists>y<length chans. resolve (length cs) (chans ! y - 1) = Some s")
    case True
    with assms(1) s obtain y where
      "cs ! s = next_value_of (original ! s) (target_at value_arr y) n i"
      unfolding step_result_def by (auto split: if_splits)
    moreover have "is_byte (original ! s)"
      using assms(2,4) s len by (simp add: list_all_length)
    moreover have "is_byte (target_at value_arr y)"
      using assms(3,5) by (rule target_at_byte)
    ultimately show ?thesis
      using next_value_of_byte [OF assms(7,8,9)] by simp
  next
    case False
    with assms(1) s have "cs ! s = old ! s"
      unfolding step_result_def by (auto split: if_splits)
    with assms(6) s len show ?thesis by (simp add: list_all_length)
  qed
qed

lemma step_result_trans:
  assumes "step_result original value_arr n i chans old mid"
    and "step_result original value_arr n j chans mid cs"
  shows "step_result original value_arr n j chans old cs"
  unfolding step_result_def
proof (intro conjI allI impI)
  from assms have len: "length mid = length old" "length cs = length mid"
    by (simp_all add: step_result_def)
  then show "length cs = length old" by simp
  fix s assume s: "s < length cs"
  show "if \<exists>y<length chans. resolve (length cs) (chans ! y - 1) = Some s
        then \<exists>y<length chans. resolve (length cs) (chans ! y - 1) = Some s
               \<and> cs ! s = next_value_of (original ! s) (target_at value_arr y) n j
        else cs ! s = old ! s"
  proof (cases "\<exists>y<length chans. resolve (length cs) (chans ! y - 1) = Some s")
    case True
    with assms(2) s show ?thesis
      unfolding step_result_def by (auto split: if_splits)
  next
    case False
    with assms(2) s have "cs ! s = mid ! s"
      unfolding step_result_def by (auto split: if_splits)
    moreover from False assms(1) s len have "mid ! s = old ! s"
      unfolding step_result_def by (auto split: if_splits)
    ultimately show ?thesis using False by (simp only: if_False)
  qed
qed

text \<open>One step on a buffer of bytes, towards targets that are bytes.\<close>

lemma fade_frame_run:
  assumes "length original = length (channels g)" and "value_arr \<noteq> []"
    and "\<forall>c\<in>set chans. resolve (length (channels g)) (c - 1) \<noteq> None"
    and "list_all is_byte original" and "list_all is_byte value_arr"
    and "list_all is_byte (channels g)"
    and "1 \<le> i" and "i \<le> n" and "fps \<noteq> 0"
  shows "\<exists>cs ev. fade_frame original value_arr n fps chans i g
                   = Returned () (g\<lparr>channels := cs, effects := effects g @ ev\<rparr>)
           \<and> step_result original value_arr n i chans (channels g) cs
           \<and> list_all is_byte cs"
proof -
  from fade_inner_step_result [OF assms(1,2,3), of n i] obtain b cs where
    inner: "fade_inner original value_arr n i 0 chans False g = Returned b (g\<lparr>channels := cs\<rparr>)"
    and sr: "step_result original value_arr n i chans (channels g) cs"
    by blast
  from assms(7,8) have n: "1 \<le> n" and i: "0 \<le> i" by simp_all
  from step_result_bytes [OF sr assms(1,2,4,5,6) n i assms(8)]
  have bytes: "list_all is_byte cs" .
  show ?thesis
  proof (cases b)
    case True
    with inner bytes assms(9)
    have "fade_frame original value_arr n fps chans i g
            = Returned () (g\<lparr>channels := cs, effects := effects g
                @ ([Sendto (base_packet g @ map word_of_int cs) (host g) (port g)]
                   @ [Sleep (1 / fps)])\<rparr>)"
      by (simp add: fade_frame_def send_def)
    with sr bytes show ?thesis by blast
  next
    case False
    with inner assms(9)
    have "fade_frame original value_arr n fps chans i g
            = Returned () (g\<lparr>channels := cs, effects := effects g @ [Sleep (1 / fps)]\<rparr>)"
      by (simp add: fade_frame_def)
    with sr bytes show ?thesis by blast
  qed
qed

text \<open>Several steps in a row: the buffer is as the last of them leaves it.\<close>

lemma fade_frames_run:
  assumes "length original = length (channels g)" and "value_arr \<noteq> []"
    and "\<forall>c\<in>set chans. resolve (length (channels g)) (c - 1) \<noteq> None"
    and "list_all is_byte original" and "list_all is_byte value_arr"
    and "list_all is_byte (channels g)"
    and "\<forall>i\<in>set steps. 1 \<le> i \<and> i \<le> n" and "fps \<noteq> 0" and "steps \<noteq> []"
  shows "\<exists>cs ev. fade_frames original value_arr n fps chans steps g
                   = Returned () (g\<lparr>channels := cs, effects := effects g @ ev\<rparr>)
           \<and> step_result original value_arr n (last steps) chans (channels g) cs
           \<and> list_all is_byte cs"
  using assms
proof (induction steps arbitrary: g)
  case Nil
  then show ?case by simp
next
  case (Cons i rest)
  from Cons.prems(7) have i: "1 \<le> i" "i \<le> n" by simp_all
  from fade_frame_run [OF Cons.prems(1,2,3,4,5,6) i Cons.prems(8)] obtain cs ev where
    one: "fade_frame original value_arr n fps chans i g
            = Returned () (g\<lparr>channels := cs, effects := effects g @ ev\<rparr>)"
    and sr: "step_result original value_arr n i chans (channels g) cs"
    and bytes: "list_all is_byte cs"
    by blast
  show ?case
  proof (cases "rest = []")
    case True
    with one sr bytes show ?thesis by auto
  next
    case False
    let ?g1 = "g\<lparr>channels := cs, effects := effects g @ ev\<rparr>"
    from sr have len: "length cs = length (channels g)" by (simp add: step_result_def)
    have p1: "length original = length (channels ?g1)"
      using Cons.prems(1) len by simp
    have p3: "\<forall>c\<in>set chans. resolve (length (channels ?g1)) (c - 1) \<noteq> None"
      using Cons.prems(3) len by simp
    have p6: "list_all is_byte (channels ?g1)" using bytes by simp
    have p7: "\<forall>i\<in>set rest. 1 \<le> i \<and> i \<le> n" using Cons.prems(7) by simp
    from Cons.IH [OF p1 Cons.prems(2) p3 Cons.prems(4,5) p6 p7 Cons.prems(8) False]
    obtain cs' ev' where
      more: "fade_frames original value_arr n fps chans rest ?g1
               = Returned () (?g1\<lparr>channels := cs', effects := effects ?g1 @ ev'\<rparr>)"
      and sr': "step_result original value_arr n (last rest) chans (channels ?g1) cs'"
      and bytes': "list_all is_byte cs'"
      by blast
    have "fade_frames original value_arr n fps chans (i # rest) g
            = Returned () (g\<lparr>channels := cs', effects := effects g @ (ev @ ev')\<rparr>)"
      using one more by simp
    moreover have "step_result original value_arr n (last (i # rest)) chans (channels g) cs'"
      using step_result_trans [OF sr] sr' False by simp
    ultimately show ?thesis using bytes' by blast
  qed
qed

lemma upto_steps:
  assumes "1 \<le> k" and "k \<le> n"
  shows "[1 .. k] \<noteq> []" and "last [1 .. k] = k" and "\<forall>i\<in>set [1 .. k]. 1 \<le> i \<and> i \<le> n"
proof -
  from assms show "[1 .. k] \<noteq> []" by simp
  from assms(1) have "[1 .. k] = [1 .. k - 1] @ [k]" by (rule upto_rec2)
  then show "last [1 .. k] = k" by simp
  from assms show "\<forall>i\<in>set [1 .. k]. 1 \<le> i \<and> i \<le> n" by simp
qed



text \<open>The level of the one channel of a fade after its step \<open>k\<close>.\<close>

lemma single_fade_level_after:
  assumes "list_all is_byte (channels g)"
    and "resolve (length (channels g)) (c - 1) = Some s"
    and "is_byte t" and "fps \<noteq> 0"
    and "1 \<le> k" and "k \<le> number_of_frames_of seconds fps"
  shows "level_after g [c] (Scalar t) seconds fps c k
           = Some (next_value_of (channels g ! s) t (number_of_frames_of seconds fps) k)"
proof -
  let ?n = "number_of_frames_of seconds fps"
  note st = upto_steps [OF assms(5,6)]
  have va: "[t] \<noteq> []" "list_all is_byte [t]"
    using assms(3) by simp_all
  have ch: "\<forall>c'\<in>set [c]. resolve (length (channels g)) (c' - 1) \<noteq> None"
    using assms(2) by simp
  from fade_frames_run [OF refl va(1) ch assms(1) va(2) assms(1) st(3) assms(4) st(1)]
  obtain cs ev where
    run: "fade_frames (channels g) [t] ?n fps [c] [1 .. k] g
            = Returned () (g\<lparr>channels := cs, effects := effects g @ ev\<rparr>)"
    and sr: "step_result (channels g) [t] ?n (last [1 .. k]) [c] (channels g) cs"
    by blast
  from sr have len: "length cs = length (channels g)"
    by (simp add: step_result_def)
  from assms(2) have sl: "s < length cs" using len by (simp add: resolve_less)
  from assms(2) len have "\<exists>y<length [c]. resolve (length cs) ([c] ! y - 1) = Some s"
    by simp
  with sr sl obtain y where
    "cs ! s = next_value_of (channels g ! s) (target_at [t] y) ?n (last [1 .. k])"
    unfolding step_result_def by (auto split: if_splits)
  then have lv: "cs ! s = next_value_of (channels g ! s) t ?n k"
    by (simp add: st(2) target_at_def)
  from assms(6) have "min k ?n = k" by simp
  with run have "fade_channels_upto g [c] (Scalar t) seconds fps k
                   = Returned () (g\<lparr>channels := cs, effects := effects g @ ev\<rparr>)"
    by (simp add: fade_channels_upto_def value_arr_of_def)
  moreover have "get_channel_level (g\<lparr>channels := cs, effects := effects g @ ev\<rparr>) c
                   = Returned (cs ! s) (g\<lparr>channels := cs, effects := effects g @ ev\<rparr>)"
    using assms(2) len by (simp add: get_channel_level_def getitem_def)
  ultimately show ?thesis
    by (simp add: level_after_def lv)
qed

text \<open>
  C8. A fade of one channel, on a buffer of bytes, from its level \<open>start\<close> up to a byte
  \<open>t \<ge> start\<close>, at a frame rate that is not zero: the fade returns after as many steps
  as it has frames, and the levels of the channel after the steps 1, 2, and so on to the
  last never decrease and end at \<open>t\<close>.
\<close>

theorem single_upward_fade_monotone:
  assumes "list_all is_byte (channels g)"
    and "get_channel_level g c = Returned start g"
    and "start \<le> t" and "t \<le> 255" and "fps \<noteq> 0"
  shows "\<exists>g' levels. fade_channels g [c] (Scalar t) seconds fps = Returned () g'
           \<and> sleeps g' = sleeps g + nat (number_of_frames_of seconds fps)
           \<and> map (level_after g [c] (Scalar t) seconds fps c) [1 .. number_of_frames_of seconds fps]
               = map Some levels
           \<and> length levels = nat (number_of_frames_of seconds fps)
           \<and> sorted levels \<and> last levels = t"
proof -
  let ?n = "number_of_frames_of seconds fps"
  let ?f = "\<lambda>k. next_value_of start t ?n k"
  have n: "1 \<le> ?n" by (rule number_of_frames_of_pos)
  from assms(2) obtain s where s: "resolve (length (channels g)) (c - 1) = Some s"
    and start: "start = channels g ! s"
    by (auto simp: get_channel_level_def getitem_def split: option.splits)
  from s have "s < length (channels g)" by (rule resolve_less)
  with assms(1) start have "is_byte start" by (simp add: list_all_length)
  with assms(3,4) have t: "is_byte t" by (simp add: is_byte_def)
  have lv: "level_after g [c] (Scalar t) seconds fps c k = Some (?f k)"
    if "k \<in> set [1 .. ?n]" for k
    using single_fade_level_after [OF assms(1) s t assms(5), of k seconds] that start by simp
  have m: "map (level_after g [c] (Scalar t) seconds fps c) [1 .. ?n] = map Some (map ?f [1 .. ?n])"
    using lv by (simp add: comp_def)
  have so: "sorted (map ?f [1 .. ?n])"
    unfolding sorted_map
  proof (rule sorted_wrt_mono_rel [OF _ sorted_upto])
    fix i j :: int assume "i \<le> j"
    then show "?f i \<le> ?f j"
      by (rule next_value_of_mono [OF n assms(3)])
  qed
  note st = upto_steps [OF n order_refl]
  have la: "last (map ?f [1 .. ?n]) = t"
    using st(1,2) by (simp add: last_map next_value_of_last [OF n])
  have va: "value_arr_of (Scalar t) \<noteq> []" "list_all is_byte (value_arr_of (Scalar t))"
    using t by (simp_all add: value_arr_of_def)
  have ch: "\<forall>c'\<in>set [c]. resolve (length (channels g)) (c' - 1) \<noteq> None"
    using s by simp
  from fade_frames_run [OF refl va(1) ch assms(1) va(2) assms(1) st(3) assms(5) st(1)]
  obtain g' where run: "fade_channels g [c] (Scalar t) seconds fps = Returned () g'"
    unfolding fade_channels_def by blast
  then have "sleeps g' = sleeps g + length [1 .. ?n]"
    unfolding fade_channels_def by (rule fade_frames_sleeps)
  then have sl: "sleeps g' = sleeps g + nat ?n" by simp
  have le: "length (map ?f [1 .. ?n]) = nat ?n" by simp
  from run sl m le so la show ?thesis by blast
qed

theorem single_upward_fade_monotone_witness:
  "list_all is_byte (channels gateway4)
   \<and> get_channel_level gateway4 1 = Returned 0 gateway4
   \<and> (0 :: int) \<le> 200 \<and> (200 :: int) \<le> 255 \<and> (40 :: rat) \<noteq> 0
   \<and> (\<exists>g' levels. fade_channels gateway4 [1] (Scalar 200) 1 40 = Returned () g'
          \<and> sleeps g' = 40
          \<and> map (level_after gateway4 [1] (Scalar 200) 1 40 1) [1 .. 40] = map Some levels
          \<and> length levels = 40 \<and> sorted levels \<and> last levels = 200)"
proof -
  have h1: "list_all is_byte (channels gateway4)"
    by (simp add: gateway4_def is_byte_def)
  have h2: "get_channel_level gateway4 1 = Returned 0 gateway4"
    by (simp add: get_channel_level_def getitem_def resolve_def gateway4_def)
  have h3: "(0 :: int) \<le> 200" and h4: "(200 :: int) \<le> 255" and h5: "(40 :: rat) \<noteq> 0"
    by simp_all
  have n: "number_of_frames_of 1 40 = 40"
    by (simp add: number_of_frames_of_def py_int_def)
  have z: "sleeps gateway4 = 0"
    by (simp add: sleeps_def gateway4_def)
  from single_upward_fade_monotone [OF h1 h2 h3 h4 h5, of 1]
  have "\<exists>g' levels. fade_channels gateway4 [1] (Scalar 200) 1 40 = Returned () g'
          \<and> sleeps g' = 40
          \<and> map (level_after gateway4 [1] (Scalar 200) 1 40 1) [1 .. 40] = map Some levels
          \<and> length levels = 40 \<and> sorted levels \<and> last levels = 200"
    unfolding n z by simp
  with h1 h2 show ?thesis by simp
qed

text \<open>
  What does hold of the levels: the two checked writers keep a buffer of bytes a buffer of
  bytes, and so does a fade whose targets are bytes.
\<close>

lemma setitem_bytes:
  assumes "setitem xs k v = Some ys" and "list_all is_byte xs" and "is_byte v"
  shows "list_all is_byte ys"
  using assms by (auto simp: setitem_def list_all_update split: option.splits)

lemma send_channels:
  assumes "send g = Returned u g'"
  shows "channels g' = channels g"
  using send_Returned [OF assms] by simp

lemma set_channel_keeps_bytes:
  assumes "set_channel g c v send_immediately = Returned b g'"
    and "list_all is_byte (channels g)"
  shows "list_all is_byte (channels g')"
proof (cases "1 \<le> c \<and> c \<le> number_of_channels g \<and> 0 \<le> v \<and> v \<le> 255")
  case False
  with assms show ?thesis by (auto simp: set_channel_def)
next
  case True
  then have v: "is_byte v" by (simp add: is_byte_def)
  from True assms(1) obtain cs where cs: "setitem (channels g) (c - 1) v = Some cs"
    by (auto simp: set_channel_def split: option.splits)
  from setitem_bytes [OF cs assms(2) v] have b: "list_all is_byte cs" .
  from True cs assms(1) have "channels g' = cs"
    by (auto simp: set_channel_def dest: send_channels split: if_splits outcome.splits)
  with b show ?thesis by simp
qed

lemma rgb_loop_keeps_bytes:
  assumes "set_channel_rgb_loop c i vs g = Returned u g'"
    and "list_all is_byte (channels g)"
  shows "list_all is_byte (channels g')"
  using assms
proof (induction vs arbitrary: i g)
  case Nil
  then show ?case by simp
next
  case (Cons v rest)
  show ?case
  proof (cases "c + int i \<le> number_of_channels g \<and> 0 \<le> v \<and> v \<le> 255")
    case False
    with Cons.prems(1) have "set_channel_rgb_loop c (Suc i) rest g = Returned u g'"
      by auto
    from Cons.IH [OF this Cons.prems(2)] show ?thesis .
  next
    case True
    then have v: "is_byte v" by (simp add: is_byte_def)
    from True Cons.prems(1) obtain cs where cs: "setitem (channels g) (c - 1 + int i) v = Some cs"
      and run: "set_channel_rgb_loop c (Suc i) rest (g\<lparr>channels := cs\<rparr>) = Returned u g'"
      by (auto split: option.splits)
    from setitem_bytes [OF cs Cons.prems(2) v]
    have "list_all is_byte (channels (g\<lparr>channels := cs\<rparr>))" by simp
    from Cons.IH [OF run this] show ?thesis .
  qed
qed

lemma set_channel_rgb_keeps_bytes:
  assumes "set_channel_rgb g c vs send_immediately = Returned b g'"
    and "list_all is_byte (channels g)"
  shows "list_all is_byte (channels g')"
proof -
  from assms(1) obtain g1 where
    loop: "set_channel_rgb_loop c 0 vs g = Returned () g1"
    by (auto simp: set_channel_rgb_def split: outcome.splits)
  from rgb_loop_keeps_bytes [OF loop assms(2)] have b: "list_all is_byte (channels g1)" .
  from loop assms(1) have "channels g' = channels g1"
    by (auto simp: set_channel_rgb_def dest: send_channels split: if_splits outcome.splits)
  with b show ?thesis by simp
qed

lemma fade_channels_keeps_bytes:
  assumes "list_all is_byte (channels g)"
    and "value_arr_of v \<noteq> []" and "list_all is_byte (value_arr_of v)"
    and "\<forall>c\<in>set chans. resolve (length (channels g)) (c - 1) \<noteq> None"
    and "fps \<noteq> 0"
  shows "\<exists>g'. fade_channels g chans v seconds fps = Returned () g'
           \<and> list_all is_byte (channels g') \<and> length (channels g') = length (channels g)"
proof -
  let ?n = "number_of_frames_of seconds fps"
  note st = upto_steps [OF number_of_frames_of_pos order_refl, of seconds fps]
  from fade_frames_run [OF refl assms(2,4,1,3,1) st(3) assms(5) st(1)]
  obtain cs ev where
    "fade_frames (channels g) (value_arr_of v) ?n fps chans [1 .. ?n] g
       = Returned () (g\<lparr>channels := cs, effects := effects g @ ev\<rparr>)"
    and "step_result (channels g) (value_arr_of v) ?n (last [1 .. ?n]) chans (channels g) cs"
    and "list_all is_byte cs"
    by blast
  then show ?thesis
    by (simp add: fade_channels_def step_result_def)
qed

text \<open>
  C6. A fade of channel 1 to the level 300, in no time, on four channels at level 0:
  the level is written as it is, and the frame that follows cannot be built.
\<close>

theorem fade_writes_target_out_of_range:
  "list_all is_byte (channels gateway4)
   \<and> fade_channels gateway4 [1] (Scalar 300) 0 40
       = Raised ValueError (gateway4\<lparr>channels := [300, 0, 0, 0]\<rparr>)"
  by (simp add: fade_channels_def number_of_frames_of_def py_int_def value_arr_of_def
      fade_frame_def getitem_def setitem_def resolve_def next_value_of_def py_round_def
      send_def is_byte_def gateway4_def upto.simps)

end
